theory Spec2Isabelle
  imports Main "HOL-Library.Word" "HOL-Library.Multiset"
begin

section \<open>Strings and bytes\<close>

text \<open>
  Python \<open>str\<close> values are modelled as \<open>string\<close> and \<open>bytes\<close> values as lists of
  8-bit words. Every string whose content the modelled functions inspect (hexadecimal
  renderings, page file names, URL tokens) is read as ASCII text.
\<close>

type_synonym byte = "8 word"

text \<open>\<open>bytes.hex()\<close>: two lower-case hexadecimal digits per byte, high nibble first.\<close>

definition hexdigit :: "nat \<Rightarrow> char" where
  "hexdigit n = ''0123456789abcdef'' ! n"

definition hex_byte :: "byte \<Rightarrow> string" where
  "hex_byte b = [hexdigit (unat b div 16), hexdigit (unat b mod 16)]"

definition hex :: "byte list \<Rightarrow> string" where
  "hex bs = concat (map hex_byte bs)"

text \<open>
  \<open>str.upper()\<close> on ASCII text: the letters \<open>a\<close> to \<open>z\<close> are mapped to \<open>A\<close> to \<open>Z\<close>,
  every other character is kept.
\<close>

definition upper_char :: "char \<Rightarrow> char" where
  "upper_char c =
     (case map_of (zip ''abcdefghijklmnopqrstuvwxyz'' ''ABCDEFGHIJKLMNOPQRSTUVWXYZ'') c of
        None \<Rightarrow> c
      | Some u \<Rightarrow> u)"

definition upper :: "string \<Rightarrow> string" where
  "upper s = map upper_char s"

section \<open>The filetype sniffer: \<open>determine_filetype\<close>\<close>

text \<open>The dictionary \<open>sigs\<close>, in insertion order (the order \<open>items()\<close> iterates in).\<close>

definition sigs :: "(string \<times> string list) list" where
  "sigs =
     [(''.gif'', [''474946383761'', ''474946383961'']),
      (''.png'', [''89504E470D0A1A0A'']),
      (''.jpg'', [''FFD8FFDB'', ''FFD8FFE000104A4649460001''])]"

text \<open>The test of the inner loop: \<open>sig == starting_bytes[: len(sig)].upper()\<close>.\<close>

definition sig_hit :: "string \<Rightarrow> string \<Rightarrow> bool" where
  "sig_hit sig starting_bytes = (sig = upper (take (length sig) starting_bytes))"

text \<open>The inner loop \<open>for sig in sigs\<close>: \<open>Some ext\<close> when it returns, \<open>None\<close> when it ends.\<close>

fun sig_loop :: "string \<Rightarrow> string list \<Rightarrow> string \<Rightarrow> string option" where
  "sig_loop ext [] starting_bytes = None"
| "sig_loop ext (sig # rest) starting_bytes =
     (if sig_hit sig starting_bytes then Some ext else sig_loop ext rest starting_bytes)"

text \<open>The outer loop \<open>for ext, sigs in sigs.items()\<close>, and the final \<open>return ""\<close>.\<close>

fun ext_loop :: "(string \<times> string list) list \<Rightarrow> string \<Rightarrow> string" where
  "ext_loop [] starting_bytes = ''''"
| "ext_loop ((ext, ss) # rest) starting_bytes =
     (case sig_loop ext ss starting_bytes of
        Some e \<Rightarrow> e
      | None \<Rightarrow> ext_loop rest starting_bytes)"

definition determine_filetype :: "string \<Rightarrow> string" where
  "determine_filetype starting_bytes = ext_loop sigs starting_bytes"

text \<open>
  The two lines of \<open>download_images\<close> that call it:
  \<open>starting_bytes = image[:16].hex()\<close> and
  \<open>image_type = determine_filetype(starting_bytes=starting_bytes)\<close>.
\<close>

definition starting_bytes_of :: "byte list \<Rightarrow> string" where
  "starting_bytes_of img = hex (take 16 img)"

definition image_type_of :: "byte list \<Rightarrow> string" where
  "image_type_of img = determine_filetype (starting_bytes_of img)"

subsection \<open>The sniffer as the specification words it\<close>

datatype content_type = gif | png | jpg | unknown

text \<open>The signature table of the specification, one row per signature, in the listed order.\<close>

definition signature_table :: "(content_type \<times> byte list) list" where
  "signature_table =
     [(gif, [0x47, 0x49, 0x46, 0x38, 0x37, 0x61]),
      (gif, [0x47, 0x49, 0x46, 0x38, 0x39, 0x61]),
      (png, [0x89, 0x50, 0x4E, 0x47, 0x0D, 0x0A, 0x1A, 0x0A]),
      (jpg, [0xFF, 0xD8, 0xFF, 0xDB]),
      (jpg, [0xFF, 0xD8, 0xFF, 0xE0, 0x00, 0x10, 0x4A, 0x46, 0x49, 0x46, 0x00, 0x01])]"

text \<open>
  First match wins: the payload's leading bytes, truncated to the signature's own length,
  are compared with the signature; no match gives \<open>unknown\<close>.
\<close>

fun sniff_spec :: "(content_type \<times> byte list) list \<Rightarrow> byte list \<Rightarrow> content_type" where
  "sniff_spec [] payload = unknown"
| "sniff_spec ((t, s) # rest) payload =
     (if take (length s) payload = s then t else sniff_spec rest payload)"

text \<open>The file extension of a content type; the unknown type has the empty extension.\<close>

fun extension :: "content_type \<Rightarrow> string" where
  "extension gif = ''.gif''"
| "extension png = ''.png''"
| "extension jpg = ''.jpg''"
| "extension unknown = ''''"

text \<open>
  The value of an upper-case hexadecimal digit (16 for any other character); it inverts
  \<open>upper_char \<circ> hexdigit\<close> and is used only to show that \<open>hex\<close> loses no information.
\<close>

definition hexval :: "char \<Rightarrow> nat" where
  "hexval c =
     (case map_of (zip ''0123456789ABCDEF'' [0 ..< 16]) c of None \<Rightarrow> 16 | Some n \<Rightarrow> n)"

section \<open>Integers and text\<close>

text \<open>\<open>str(i)\<close> for an integer: decimal digits, no leading zero, a minus sign when negative.\<close>

definition digit_char :: "nat \<Rightarrow> char" where
  "digit_char n = ''0123456789'' ! n"

fun str_nat :: "nat \<Rightarrow> string" where
  "str_nat n = (if n < 10 then [digit_char n] else str_nat (n div 10) @ [digit_char (n mod 10)])"

declare str_nat.simps [simp del]

definition str :: "int \<Rightarrow> string" where
  "str i = (if i < 0 then CHR ''-'' # str_nat (nat (- i)) else str_nat (nat i))"

definition is_digit :: "char \<Rightarrow> bool" where
  "is_digit c = (c \<in> set ''0123456789'')"

definition digit_val :: "char \<Rightarrow> nat" where
  "digit_val c = (case map_of (zip ''0123456789'' [0 ..< 10]) c of None \<Rightarrow> 0 | Some n \<Rightarrow> n)"

text \<open>
  \<open>int(s)\<close> for a string, base 10: white space is stripped at both ends, one sign may
  lead, and the rest is a non-empty run of digits in which single underscores may stand
  between two digits. Anything else raises \<open>ValueError\<close>, here \<open>None\<close>. White space is
  the ASCII white space (tab, line feed, vertical tab, form feed, carriage return, space);
  the interpreter's limit on the number of digits (4300) is beyond the length of a file name.
\<close>

definition is_space :: "char \<Rightarrow> bool" where
  "is_space c = (c \<in> set [CHR 0x09, CHR 0x0A, CHR 0x0B, CHR 0x0C, CHR 0x0D, CHR 0x20])"

definition strip :: "string \<Rightarrow> string" where
  "strip s = rev (dropWhile is_space (rev (dropWhile is_space s)))"

fun digits_acc :: "nat \<Rightarrow> string \<Rightarrow> nat option" where
  "digits_acc acc [] = Some acc"
| "digits_acc acc [c] = (if is_digit c then Some (10 * acc + digit_val c) else None)"
| "digits_acc acc (c # d # ds) =
     (if is_digit c then digits_acc (10 * acc + digit_val c) (d # ds)
      else if c = CHR ''_'' \<and> is_digit d then digits_acc (10 * acc + digit_val d) ds
      else None)"

fun parse_digits :: "string \<Rightarrow> nat option" where
  "parse_digits [] = None"
| "parse_digits (c # cs) = (if is_digit c then digits_acc (digit_val c) cs else None)"

definition int_of_str :: "string \<Rightarrow> int option" where
  "int_of_str s =
     (case strip s of
        [] \<Rightarrow> None
      | c # cs \<Rightarrow>
          if c = CHR ''-'' then map_option (\<lambda>n. - int n) (parse_digits cs)
          else if c = CHR ''+'' then map_option int (parse_digits cs)
          else map_option int (parse_digits (c # cs)))"

text \<open>\<open>s.split(".")\<close>: the pieces between the dots; never the empty list.\<close>

fun split_dot :: "string \<Rightarrow> string list" where
  "split_dot [] = [[]]"
| "split_dot (c # cs) =
     (if c = CHR ''.'' then [] # split_dot cs
      else (c # hd (split_dot cs)) # tl (split_dot cs))"

text \<open>The substring test \<open>sub in s\<close>.\<close>

fun contains :: "string \<Rightarrow> string \<Rightarrow> bool" where
  "contains sub [] = (sub = [])"
| "contains sub (c # cs) = (take (length sub) (c # cs) = sub \<or> contains sub cs)"

text \<open>
  \<open>os.path.join(directory, name)\<close> for two components on a POSIX system: an absolute
  \<open>name\<close> replaces the directory, otherwise the two are put together with one slash,
  which is left out when the directory is empty or ends in a slash.
\<close>

definition join :: "string \<Rightarrow> string \<Rightarrow> string" where
  "join directory name =
     (if take 1 name = ''/'' then name
      else if directory = [] \<or> last directory = CHR ''/'' then directory @ name
      else directory @ ''/'' @ name)"

section \<open>The URL templater\<close>

datatype Site = BABLE

text \<open>
  The \<open>site\<close> argument of \<open>get_url_replacements\<close> is annotated \<open>str\<close> and compared
  with \<open>Site.BABLE\<close>; callers pass a member of \<open>Site\<close>. Both kinds of value are modelled.
\<close>

datatype site_value = Member Site | Text string

text \<open>
  The compiled expression. The only pattern the program compiles is \<open>seq=\d+\<close>: a
  literal followed by one or more decimal digits.
\<close>

datatype regex = Literal_Digits string

text \<open>
  The length of the match of the pattern at the very start of a string, if there is one.
  \<open>\d+\<close> is greedy and nothing follows it, so the match takes every digit after the literal.
\<close>

fun match_at :: "regex \<Rightarrow> string \<Rightarrow> nat option" where
  "match_at (Literal_Digits lit) s =
     (if take (length lit) s = lit \<and> takeWhile is_digit (drop (length lit) s) \<noteq> []
      then Some (length lit + length (takeWhile is_digit (drop (length lit) s)))
      else None)"

text \<open>
  \<open>expression.sub(repl, s)\<close> with the default \<open>count=0\<close>: scanning from the left, every
  match is replaced and the scan goes on behind it. The replacement text of the program,
  \<open>seq=\<close> followed by decimal digits, has no backslash, so it is inserted as it is.
\<close>

function re_sub :: "regex \<Rightarrow> string \<Rightarrow> string \<Rightarrow> string" where
  "re_sub expression repl [] = []"
| "re_sub expression repl (c # cs) =
     (case match_at expression (c # cs) of
        None \<Rightarrow> c # re_sub expression repl cs
      | Some n \<Rightarrow> repl @ re_sub expression repl (drop n (c # cs)))"
  by pat_completeness auto
termination
proof (relation "measure (\<lambda>(expression, repl, s). length s)")
  show "wf (measure (\<lambda>(expression, repl, s). length s))" by simp
next
  fix expression :: regex and repl :: string and c :: char and cs :: string
  show "((expression, repl, cs), (expression, repl, c # cs))
          \<in> measure (\<lambda>(expression, repl, s). length s)"
    by simp
next
  fix expression :: regex and repl :: string and c :: char and cs :: string and n :: nat
  assume "match_at expression (c # cs) = Some n"
  then have "0 < n"
    by (cases expression) (auto split: if_splits)
  then show "((expression, repl, drop n (c # cs)), (expression, repl, c # cs))
          \<in> measure (\<lambda>(expression, repl, s). length s)"
    by simp
qed

datatype error = TypeError | ValueError | FetchError

text \<open>\<open>get_url_replacements\<close>: the function ends without \<open>return\<close>, that is with \<open>None\<close>,
  when the site is not \<open>Site.BABLE\<close>.\<close>

fun get_url_replacements :: "string \<Rightarrow> site_value \<Rightarrow> (regex \<times> string) option" where
  "get_url_replacements base_url (Member BABLE) = Some (Literal_Digits ''seq='', ''seq='')"
| "get_url_replacements base_url (Text t) = None"

text \<open>The loop \<open>for i in range(1, npages + 1)\<close> of \<open>download_images\<close> that fills \<open>url_info\<close>.\<close>

definition url_info_loop :: "regex \<Rightarrow> string \<Rightarrow> string \<Rightarrow> int \<Rightarrow> (int \<times> string) list" where
  "url_info_loop expression replacement base_url npages =
     map (\<lambda>i. (i, re_sub expression (replacement @ str i) base_url)) [1 .. npages]"

text \<open>
  The first three statements of \<open>download_images\<close>, which derive the work items.
  Unpacking \<open>None\<close> into \<open>expression, replacement\<close> raises \<open>TypeError\<close>.
\<close>

definition derive_work_items :: "string \<Rightarrow> int \<Rightarrow> site_value \<Rightarrow> error + (int \<times> string) list" where
  "derive_work_items base_url npages site =
     (case get_url_replacements base_url site of
        None \<Rightarrow> Inl TypeError
      | Some (expression, replacement) \<Rightarrow>
          Inr (url_info_loop expression replacement base_url npages))"

text \<open>Whether the pattern matches anywhere in a string (\<open>expression.search\<close>).\<close>

fun search :: "regex \<Rightarrow> string \<Rightarrow> bool" where
  "search expression [] = False"
| "search expression (c # cs) =
     (match_at expression (c # cs) \<noteq> None \<or> search expression cs)"

text \<open>
  The substitution as the specification words it: only the first occurrence of the
  pattern is replaced and the rest of the text is left unchanged.
\<close>

fun replace_first :: "regex \<Rightarrow> string \<Rightarrow> string \<Rightarrow> string" where
  "replace_first expression repl [] = []"
| "replace_first expression repl (c # cs) =
     (case match_at expression (c # cs) of
        None \<Rightarrow> c # replace_first expression repl cs
      | Some n \<Rightarrow> repl @ drop n (c # cs))"

section \<open>The retrying fetcher: \<open>fetch_image\<close>\<close>

text \<open>
  What one call of \<open>urlopen\<close> and \<open>site.read()\<close> does: it delivers the body, raises
  \<open>HTTPError\<close>, or raises some other exception (which \<open>fetch_image\<close> does not catch).
  The network is a parameter: it answers attempt \<open>i\<close> for a work item.
\<close>

datatype response = Body "byte list" | HTTPError | OtherError

type_synonym network = "int \<times> string \<Rightarrow> nat \<Rightarrow> response"

text \<open>
  The random generator is a parameter too: it hands \<open>randint\<close> a raw number for attempt
  \<open>i\<close> of a work item. \<open>randint(a, b)\<close> returns an integer \<open>N\<close> with \<open>a \<le> N \<le> b\<close>,
  both ends included.
\<close>

type_synonym dice = "int \<times> string \<Rightarrow> nat \<Rightarrow> nat"

definition randint :: "int \<Rightarrow> int \<Rightarrow> nat \<Rightarrow> int" where
  "randint a b raw = a + int (raw mod nat (b - a + 1))"

text \<open>
  What is observed of a run: calls of \<open>urlopen\<close> (page, attempt), calls of \<open>sleep\<close>
  (page, attempt, seconds), warnings (page, starting bytes) and lines printed by \<open>main\<close>.
  The progress lines printed by \<open>fetch_image\<close> are informational and left out.
\<close>

datatype event =
  Urlopen int nat
| Sleep int nat int
| Warn int string
| Print string

text \<open>How a call ends: it returns a value or raises.\<close>

datatype 'a outcome = Returned 'a | Raised error

text \<open>
  The loop \<open>for i in range(10)\<close>, from attempt \<open>i\<close> on. When the loop runs out the
  function body ends, which returns \<open>None\<close>.
\<close>

function fetch_loop ::
  "network \<Rightarrow> dice \<Rightarrow> int \<times> string \<Rightarrow> nat \<Rightarrow> event list \<times> (int \<times> byte list) option outcome"
where
  "fetch_loop net rnd url_info i =
     (if 10 \<le> i then ([], Returned None)
      else
        (case net url_info i of
           Body b \<Rightarrow> ([Urlopen (fst url_info) i], Returned (Some (fst url_info, b)))
         | OtherError \<Rightarrow> ([Urlopen (fst url_info) i], Raised FetchError)
         | HTTPError \<Rightarrow>
             (let sleep_time = randint 0 (2 ^ i - 1) (rnd url_info i);
                  later = fetch_loop net rnd url_info (i + 1)
              in (Urlopen (fst url_info) i # Sleep (fst url_info) i sleep_time # fst later,
                  snd later))))"
  by pat_completeness auto
termination
  by (relation "measure (\<lambda>(net, rnd, url_info, i). 10 - i)") auto

declare fetch_loop.simps [simp del]

definition fetch_image ::
  "network \<Rightarrow> dice \<Rightarrow> int \<times> string \<Rightarrow> event list \<times> (int \<times> byte list) option outcome"
where
  "fetch_image net rnd url_info = fetch_loop net rnd url_info 0"

text \<open>Two readings of an event: it is a call of \<open>urlopen\<close>; and, for a call of \<open>sleep\<close>
  after attempt \<open>i\<close>, the attempt is one of the ten and the duration lies in the closed
  interval from 0 to \<open>2 ^ i - 1\<close>.\<close>

fun is_urlopen :: "event \<Rightarrow> bool" where
  "is_urlopen (Urlopen p i) = True"
| "is_urlopen ev = False"

fun sleep_in_bounds :: "event \<Rightarrow> bool" where
  "sleep_in_bounds (Sleep p i d) = (i < 10 \<and> 0 \<le> d \<and> d \<le> 2 ^ i - 1)"
| "sleep_in_bounds ev = True"

section \<open>The download coordinator: \<open>download_images\<close>\<close>

text \<open>The target directory as a map from paths to contents, and the events observed so far.\<close>

record world =
  files :: "string \<rightharpoonup> byte list"
  trace :: "event list"

text \<open>
  The body of \<open>for image_data in pool.imap_unordered(fetch_image, url_info)\<close>, over the
  results in the order the pool yields them. A worker's exception is raised again when
  its result is taken; \<open>image_data[0]\<close> on \<open>None\<close> raises \<open>TypeError\<close>. Either ends the
  loop, and the function, at once. The events of a fetch are recorded when its result is taken.
\<close>

fun write_images ::
  "string \<Rightarrow> (event list \<times> (int \<times> byte list) option outcome) list \<Rightarrow> world
     \<Rightarrow> (error + unit) \<times> world"
where
  "write_images directory [] w = (Inr (), w)"
| "write_images directory ((evs, Raised e) # rest) w =
     (Inl e, w\<lparr>trace := trace w @ evs\<rparr>)"
| "write_images directory ((evs, Returned None) # rest) w =
     (Inl TypeError, w\<lparr>trace := trace w @ evs\<rparr>)"
| "write_images directory ((evs, Returned (Some (page_number, img))) # rest) w =
     (let starting_bytes = hex (take 16 img);
          image_type = determine_filetype starting_bytes;
          warned = (if image_type = [] then [Warn page_number starting_bytes] else []);
          image_file = join directory (str page_number @ image_type)
      in write_images directory rest
           (w\<lparr>files := (files w)(image_file \<mapsto> img), trace := trace w @ evs @ warned\<rparr>))"

text \<open>
  \<open>download_images\<close>. The order in which \<open>imap_unordered\<close> yields the results is the
  scheduler's: \<open>completion\<close> is the rearrangement of the work items it makes.
\<close>

definition download_images ::
  "network \<Rightarrow> dice \<Rightarrow> ((int \<times> string) list \<Rightarrow> (int \<times> string) list)
     \<Rightarrow> string \<Rightarrow> int \<Rightarrow> string \<Rightarrow> site_value \<Rightarrow> world \<Rightarrow> (error + unit) \<times> world"
where
  "download_images net rnd completion base_url npages directory site w =
     (case derive_work_items base_url npages site of
        Inl e \<Rightarrow> (Inl e, w)
      | Inr url_info \<Rightarrow>
          write_images directory (map (fetch_image net rnd) (completion url_info)) w)"

text \<open>
  The download step of \<open>main\<close> (\<open>if args.download:\<close>), with the URL and the page count
  given: the image directory is removed and made anew, then either \<open>download_images\<close>
  runs for \<open>Site.BABLE\<close> or a line is printed and \<open>main\<close> returns.
\<close>

definition main_download ::
  "network \<Rightarrow> dice \<Rightarrow> ((int \<times> string) list \<Rightarrow> (int \<times> string) list)
     \<Rightarrow> string \<Rightarrow> int \<Rightarrow> string \<Rightarrow> (error + unit) \<times> world"
where
  "main_download net rnd completion url pages img_dir =
     (if contains ''babel.hathitrust.org'' url
      then download_images net rnd completion url pages img_dir (Member BABLE)
             \<lparr>files = Map.empty, trace = []\<rparr>
      else (Inr (), \<lparr>files = Map.empty, trace = [Print ''Not a recognized URL, exiting...'']\<rparr>))"

text \<open>A small payload that starts with the jpg signature \<open>FFD8FFDB\<close>, for running the
  coordinator on a concrete batch.\<close>

definition jpeg_body :: "byte list" where
  "jpeg_body = [0xFF, 0xD8, 0xFF, 0xDB, 0x00, 0x43]"

section \<open>The page store: \<open>find_images\<close>\<close>

definition is_image :: "string \<Rightarrow> bool" where
  "is_image filename = (last (split_dot filename) \<in> set [''jpg'', ''png'', ''gif''])"

text \<open>
  \<open>sorted(images, key=lambda x: int(x.split(".")[0]))\<close> computes the key of every
  element before it compares any two; the first key that fails raises \<open>ValueError\<close>.
\<close>

definition sort_key_of :: "string \<Rightarrow> int option" where
  "sort_key_of x = int_of_str (hd (split_dot x))"

fun keyed :: "string list \<Rightarrow> (int \<times> string) list option" where
  "keyed [] = Some []"
| "keyed (x # xs) =
     (case sort_key_of x of
        None \<Rightarrow> None
      | Some k \<Rightarrow> map_option (\<lambda>ks. (k, x) # ks) (keyed xs))"

text \<open>
  \<open>find_images\<close>, over the listing \<open>listdir(directory)\<close> returns. \<open>sorted\<close> is stable,
  as \<open>sort_key\<close> is.
\<close>

definition find_images :: "string \<Rightarrow> string list \<Rightarrow> error + string list" where
  "find_images directory listing =
     (case keyed (filter is_image listing) of
        None \<Rightarrow> Inl ValueError
      | Some ks \<Rightarrow> Inr (map (\<lambda>kx. join directory (snd kx)) (sort_key fst ks)))"

subsection \<open>Page files as the specification describes them\<close>

text \<open>
  A stored page file is named by its page index followed by the extension of its content
  type. A store is valid when every index is positive, every extension is one of
  \<open>.gif\<close>, \<open>.png\<close>, \<open>.jpg\<close> or empty, and no two files have the same index.
\<close>

definition page_file :: "int \<times> string \<Rightarrow> string" where
  "page_file p = str (fst p) @ snd p"

definition valid_store :: "(int \<times> string) list \<Rightarrow> bool" where
  "valid_store ps =
     ((\<forall>p \<in> set ps. 1 \<le> fst p \<and> snd p \<in> set [''.gif'', ''.png'', ''.jpg'', ''''])
      \<and> distinct (map fst ps))"

text \<open>
  The extension of a file name and the component before it, as the specification uses
  the words: the name is cut at its last dot; a name without a dot has the empty extension.
\<close>

definition name_extension :: "string \<Rightarrow> string" where
  "name_extension filename =
     (if CHR ''.'' \<in> set filename then rev (takeWhile (\<lambda>c. c \<noteq> CHR ''.'') (rev filename)) else [])"

definition name_before_extension :: "string \<Rightarrow> string" where
  "name_before_extension filename =
     (if CHR ''.'' \<in> set filename then rev (tl (dropWhile (\<lambda>c. c \<noteq> CHR ''.'') (rev filename)))
      else filename)"

section \<open>Properties\<close>

subsection \<open>The sniffer\<close>

lemma length_hex: "length (hex bs) = 2 * length bs"
  by (induction bs) (simp_all add: hex_def hex_byte_def)

lemma take_hex: "take (2 * k) (hex bs) = hex (take k bs)"
proof (induction bs arbitrary: k)
  case Nil
  show ?case by (simp add: hex_def)
next
  case (Cons b bs)
  show ?case
  proof (cases k)
    case 0
    then show ?thesis by (simp add: hex_def)
  next
    case (Suc j)
    have "take (2 * j) (hex bs) = hex (take j bs)" by (rule Cons.IH)
    then show ?thesis using Suc by (simp add: hex_def hex_byte_def)
  qed
qed

lemma hexval_upper_hexdigit_table:
  "list_all (\<lambda>n. hexval (upper_char (hexdigit n)) = n) [0 ..< 16]"
  by (simp add: hexval_def upper_char_def hexdigit_def upt_rec)

lemma hexval_upper_hexdigit: "n < 16 \<Longrightarrow> hexval (upper_char (hexdigit n)) = n"
  using hexval_upper_hexdigit_table by (simp add: list_all_iff)

lemma upper_hex_byte_inj:
  assumes "upper (hex_byte a) = upper (hex_byte b)"
  shows "a = b"
proof -
  have hi: "unat a div 16 < 16" and hj: "unat b div 16 < 16"
    using unsigned_less [of a, where ?'a = nat] unsigned_less [of b, where ?'a = nat] by simp_all
  have "upper_char (hexdigit (unat a div 16)) = upper_char (hexdigit (unat b div 16))"
    and "upper_char (hexdigit (unat a mod 16)) = upper_char (hexdigit (unat b mod 16))"
    using assms by (simp_all add: upper_def hex_byte_def)
  then have "hexval (upper_char (hexdigit (unat a div 16))) = hexval (upper_char (hexdigit (unat b div 16)))"
    and "hexval (upper_char (hexdigit (unat a mod 16))) = hexval (upper_char (hexdigit (unat b mod 16)))"
    by simp_all
  then have "unat a div 16 = unat b div 16" and "unat a mod 16 = unat b mod 16"
    using hi hj by (simp_all add: hexval_upper_hexdigit)
  then have "unat a = unat b"
    by (metis div_mult_mod_eq)
  then show ?thesis by (rule word_unat_eq_iff [THEN iffD2])
qed

lemma upper_hex_inj: "upper (hex xs) = upper (hex ys) \<Longrightarrow> xs = ys"
proof (induction xs arbitrary: ys)
  case Nil
  then have "length (hex ys) = 0" by (simp add: hex_def upper_def)
  then show ?case by (simp add: length_hex)
next
  case (Cons x xs)
  from Cons.prems have "length (hex ys) = length (hex (x # xs))"
    by (metis length_map upper_def)
  then obtain y ys' where ys: "ys = y # ys'"
    by (cases ys) (simp_all add: length_hex)
  from Cons.prems have "upper (hex_byte x) @ upper (hex xs) = upper (hex_byte y) @ upper (hex ys')"
    by (simp add: ys hex_def upper_def)
  then have "upper (hex_byte x) = upper (hex_byte y)" and "upper (hex xs) = upper (hex ys')"
    by (simp_all add: upper_def hex_byte_def)
  then show ?case using Cons.IH upper_hex_byte_inj ys by simp
qed

lemma sig_hit_iff:
  assumes "sig = upper (hex bs)" and "length bs \<le> 16"
  shows "sig_hit sig (starting_bytes_of p) = (take (length bs) p = bs)"
proof -
  have len: "length sig = 2 * length bs"
    using assms(1) by (simp add: upper_def length_hex)
  have "take (length sig) (starting_bytes_of p) = hex (take (length bs) (take 16 p))"
    by (simp only: len starting_bytes_of_def take_hex)
  also have "take (length bs) (take 16 p) = take (length bs) p"
    using assms(2) by (simp add: min_def)
  finally have "sig_hit sig (starting_bytes_of p) = (upper (hex bs) = upper (hex (take (length bs) p)))"
    by (simp add: sig_hit_def assms(1))
  also have "\<dots> = (take (length bs) p = bs)"
    using upper_hex_inj by auto
  finally show ?thesis .
qed

lemma sig_gif87: "''474946383761'' = upper (hex [0x47, 0x49, 0x46, 0x38, 0x37, 0x61])"
  by (simp add: upper_def upper_char_def hex_def hex_byte_def hexdigit_def)

lemma sig_gif89: "''474946383961'' = upper (hex [0x47, 0x49, 0x46, 0x38, 0x39, 0x61])"
  by (simp add: upper_def upper_char_def hex_def hex_byte_def hexdigit_def)

lemma sig_png: "''89504E470D0A1A0A'' = upper (hex [0x89, 0x50, 0x4E, 0x47, 0x0D, 0x0A, 0x1A, 0x0A])"
  by (simp add: upper_def upper_char_def hex_def hex_byte_def hexdigit_def)

lemma sig_jpg_db: "''FFD8FFDB'' = upper (hex [0xFF, 0xD8, 0xFF, 0xDB])"
  by (simp add: upper_def upper_char_def hex_def hex_byte_def hexdigit_def)

lemma sig_jpg_jfif:
  "''FFD8FFE000104A4649460001'' =
     upper (hex [0xFF, 0xD8, 0xFF, 0xE0, 0x00, 0x10, 0x4A, 0x46, 0x49, 0x46, 0x00, 0x01])"
  by (simp add: upper_def upper_char_def hex_def hex_byte_def hexdigit_def)

lemmas sig_hits =
  sig_hit_iff [OF sig_gif87] sig_hit_iff [OF sig_gif89] sig_hit_iff [OF sig_png]
  sig_hit_iff [OF sig_jpg_db] sig_hit_iff [OF sig_jpg_jfif]

lemma image_type_of_spec: "image_type_of payload = extension (sniff_spec signature_table payload)"
  by (simp add: image_type_of_def determine_filetype_def sigs_def signature_table_def sig_hits)

lemma starting_bytes_of_take: "starting_bytes_of (take 16 payload) = starting_bytes_of payload"
  by (simp add: starting_bytes_of_def)

lemma sig_hit_upper: "sig_hit sig sb = (sig = take (length sig) (upper sb))"
  by (simp add: sig_hit_def upper_def take_map)

lemma sig_loop_upper:
  assumes "upper sb = upper sb'"
  shows "sig_loop ext ss sb = sig_loop ext ss sb'"
  by (induction ss) (simp_all add: sig_hit_upper assms)

lemma ext_loop_upper:
  assumes "upper sb = upper sb'"
  shows "ext_loop tab sb = ext_loop tab sb'"
proof (induction tab)
  case Nil
  show ?case by simp
next
  case (Cons row tab)
  obtain ext ss where row: "row = (ext, ss)" by (cases row)
  show ?case
    by (simp add: row Cons.IH sig_loop_upper [OF assms] split: option.split)
qed

lemma sig_hit_short:
  "2 * length payload < length sig \<Longrightarrow> \<not> sig_hit sig (starting_bytes_of payload)"
proof
  assume short: "2 * length payload < length sig" and "sig_hit sig (starting_bytes_of payload)"
  then have "length sig = length (take (length sig) (starting_bytes_of payload))"
    by (metis sig_hit_def upper_def length_map)
  also have "\<dots> \<le> length (starting_bytes_of payload)" by simp
  also have "\<dots> \<le> 2 * length payload" by (simp add: starting_bytes_of_def length_hex)
  finally show False using short by simp
qed

text \<open>
  Claim C3. The sniffer is a total function of at most the first 16 bytes of the payload.
  It returns the extension of the first row of the signature table whose signature equals
  the payload's leading bytes, truncated to the signature's own length, and the empty
  (unknown) extension when no row matches. Starting bytes that differ only in letter case
  give the same answer, and a payload shorter than a signature never matches it.
\<close>

theorem sniffer_first_match:
  "image_type_of payload = extension (sniff_spec signature_table payload)
   \<and> image_type_of payload = image_type_of (take 16 payload)
   \<and> (\<forall>sb sb'. upper sb = upper sb' \<longrightarrow> determine_filetype sb = determine_filetype sb')
   \<and> (\<forall>(ext, ss) \<in> set sigs. \<forall>sig \<in> set ss.
         2 * length payload < length sig \<longrightarrow> \<not> sig_hit sig (starting_bytes_of payload))"
proof (intro conjI)
  show "image_type_of payload = extension (sniff_spec signature_table payload)"
    by (rule image_type_of_spec)
  show "image_type_of payload = image_type_of (take 16 payload)"
    by (simp add: image_type_of_def starting_bytes_of_take)
  show "\<forall>sb sb'. upper sb = upper sb' \<longrightarrow> determine_filetype sb = determine_filetype sb'"
    by (auto simp: determine_filetype_def intro: ext_loop_upper)
  show "\<forall>(ext, ss) \<in> set sigs. \<forall>sig \<in> set ss.
          2 * length payload < length sig \<longrightarrow> \<not> sig_hit sig (starting_bytes_of payload)"
    using sig_hit_short by blast
qed

text \<open>The theorem at the three bytes \<open>FF D8 FF\<close>, too short for either jpg signature.\<close>

theorem sniffer_first_match_witness:
  "image_type_of [0xFF, 0xD8, 0xFF] = ''''
   \<and> sniff_spec signature_table [0xFF, 0xD8, 0xFF] = unknown
   \<and> upper ''ffd8ffdb'' = upper ''FFD8FFDB''
   \<and> determine_filetype ''ffd8ffdb'' = determine_filetype ''FFD8FFDB''
   \<and> (''.jpg'', [''FFD8FFDB'', ''FFD8FFE000104A4649460001'']) \<in> set sigs
   \<and> 2 * length [0xFF, 0xD8, 0xFF :: byte] < length ''FFD8FFDB''
   \<and> \<not> sig_hit ''FFD8FFDB'' (starting_bytes_of [0xFF, 0xD8, 0xFF])"
proof -
  note inst = sniffer_first_match [of "[0xFF, 0xD8, 0xFF]"]
  have u: "upper ''ffd8ffdb'' = upper ''FFD8FFDB''"
    by (simp add: upper_def upper_char_def)
  have m: "(''.jpg'', [''FFD8FFDB'', ''FFD8FFE000104A4649460001'']) \<in> set sigs"
    by (simp add: sigs_def)
  have s: "sniff_spec signature_table [0xFF, 0xD8, 0xFF] = unknown"
    by (simp add: signature_table_def)
  have l: "2 * length [0xFF, 0xD8, 0xFF :: byte] < length ''FFD8FFDB''"
    by simp
  from inst have t1: "image_type_of [0xFF, 0xD8, 0xFF] = ''''"
    by (simp add: s)
  from inst have "\<forall>sb sb'. upper sb = upper sb' \<longrightarrow> determine_filetype sb = determine_filetype sb'"
    by (elim conjE)
  with u have t3: "determine_filetype ''ffd8ffdb'' = determine_filetype ''FFD8FFDB''"
    by blast
  from inst have "\<forall>(ext, ss) \<in> set sigs. \<forall>sig \<in> set ss.
         2 * length [0xFF, 0xD8, 0xFF :: byte] < length sig
           \<longrightarrow> \<not> sig_hit sig (starting_bytes_of [0xFF, 0xD8, 0xFF])"
    by (elim conjE)
  from bspec [OF this m] l
  have t4: "\<not> sig_hit ''FFD8FFDB'' (starting_bytes_of [0xFF, 0xD8, 0xFF])"
    by simp
  show ?thesis
    using t1 s u t3 m l t4 by (intro conjI)
qed

subsection \<open>The URL templater\<close>

lemma map_fst_url_info_loop:
  "map fst (url_info_loop expression replacement base_url npages) = [1 .. npages]"
  by (simp add: url_info_loop_def comp_def)

text \<open>
  Claim C2. For the site rule of the program and every base URL and page count, deriving
  the work items succeeds and gives as many items as there are pages; their page indices
  are 1 up to the page count, in ascending order and without repetition.
\<close>

theorem derive_work_items_indices:
  "\<exists>items. derive_work_items base_url npages (Member BABLE) = Inr items
     \<and> length items = nat npages
     \<and> map fst items = [1 .. npages]
     \<and> distinct (map fst items)
     \<and> sorted_wrt (<) (map fst items)"
proof -
  let ?items = "url_info_loop (Literal_Digits ''seq='') ''seq='' base_url npages"
  have "derive_work_items base_url npages (Member BABLE) = Inr ?items"
    by (simp add: derive_work_items_def)
  moreover have "length ?items = nat npages"
    by (simp add: url_info_loop_def)
  moreover have "sorted_wrt (<) [1 .. npages]"
    by (simp add: strict_sorted_iff)
  ultimately show ?thesis
    by (simp add: map_fst_url_info_loop)
qed

lemma re_sub_no_match: "\<not> search expression s \<Longrightarrow> re_sub expression repl s = s"
  by (induction s) (auto split: option.splits)

lemma not_digit_s: "\<not> is_digit CHR ''s''"
  by (simp add: is_digit_def)

lemma match_at_seq_extend:
  assumes "match_at (Literal_Digits ''seq='') (c # u) = None"
  shows "match_at (Literal_Digits ''seq='') ((c # u) @ ''seq='' @ rest) = None"
proof (cases u)
  case Nil
  then show ?thesis by simp
next
  case u1: (Cons c1 u1)
  show ?thesis
  proof (cases u1)
    case Nil
    then show ?thesis using u1 by simp
  next
    case u2: (Cons c2 u2)
    show ?thesis
    proof (cases u2)
      case Nil
      then show ?thesis using u1 u2 by simp
    next
      case u3: (Cons c3 u3)
      show ?thesis
      proof (cases u3)
        case Nil
        then show ?thesis using u1 u2 u3 by (simp add: not_digit_s)
      next
        case (Cons c4 u4)
        then show ?thesis using assms u1 u2 u3 by (simp split: if_splits)
      qed
    qed
  qed
qed

lemma re_sub_before_token:
  "\<not> search (Literal_Digits ''seq='') pre \<Longrightarrow>
     re_sub (Literal_Digits ''seq='') repl (pre @ ''seq='' @ rest)
       = pre @ re_sub (Literal_Digits ''seq='') repl (''seq='' @ rest)"
proof (induction pre)
  case Nil
  show ?case by simp
next
  case (Cons c pre)
  from Cons.prems have none: "match_at (Literal_Digits ''seq='') (c # pre) = None"
    and rest: "\<not> search (Literal_Digits ''seq='') pre"
    by simp_all
  have "match_at (Literal_Digits ''seq='') ((c # pre) @ ''seq='' @ rest) = None"
    using none by (rule match_at_seq_extend)
  then have "re_sub (Literal_Digits ''seq='') repl ((c # pre) @ ''seq='' @ rest)
      = c # re_sub (Literal_Digits ''seq='') repl (pre @ ''seq='' @ rest)"
    by simp
  then show ?case using Cons.IH [OF rest] by simp
qed

lemma takeWhile_digits_token:
  assumes "list_all is_digit ds" and "post = [] \<or> \<not> is_digit (hd post)"
  shows "takeWhile is_digit (ds @ post) = ds"
proof -
  have "takeWhile is_digit post = []"
    using assms(2) by (cases post) auto
  then show ?thesis
    using assms(1) by (simp add: list_all_iff takeWhile_append2)
qed

lemma re_sub_token:
  assumes "ds \<noteq> []" and "list_all is_digit ds" and "post = [] \<or> \<not> is_digit (hd post)"
  shows "re_sub (Literal_Digits ''seq='') repl (''seq='' @ ds @ post)
           = repl @ re_sub (Literal_Digits ''seq='') repl post"
proof -
  let ?n = "Suc (Suc (Suc (Suc (length ds))))"
  have m: "match_at (Literal_Digits ''seq='') (CHR ''s'' # ''eq='' @ ds @ post) = Some ?n"
    using assms by (simp add: takeWhile_digits_token)
  have d: "drop ?n (CHR ''s'' # ''eq='' @ ds @ post) = post"
    by simp
  have "re_sub (Literal_Digits ''seq='') repl (CHR ''s'' # ''eq='' @ ds @ post)
      = repl @ re_sub (Literal_Digits ''seq='') repl (drop ?n (CHR ''s'' # ''eq='' @ ds @ post))"
    by (simp only: re_sub.simps m option.case)
  then show ?thesis
    by (simp only: d) simp
qed

text \<open>
  Claim C6, amended. Where the base URL is some text without a match of \<open>seq=\<close>-digits,
  then \<open>seq=\<close> and a maximal non-empty run of digits, then the rest, the request URL of
  page \<open>i\<close> keeps the text before, has \<open>seq=\<close> and \<open>i\<close> in place of the token, and
  has every later occurrence in the rest replaced in the same way; a rest without an
  occurrence is left unchanged.
\<close>

theorem url_info_substitution:
  "(\<not> search (Literal_Digits ''seq='') pre \<and> ds \<noteq> [] \<and> list_all is_digit ds
      \<and> (post = [] \<or> \<not> is_digit (hd post))
     \<longrightarrow> derive_work_items (pre @ ''seq='' @ ds @ post) npages (Member BABLE)
          = Inr (map (\<lambda>i. (i, pre @ ''seq='' @ str i
                               @ re_sub (Literal_Digits ''seq='') (''seq='' @ str i) post))
                   [1 .. npages]))
   \<and> (\<not> search (Literal_Digits ''seq='') post
     \<longrightarrow> re_sub (Literal_Digits ''seq='') repl post = post)"
proof (intro conjI impI)
  assume "\<not> search (Literal_Digits ''seq='') post"
  then show "re_sub (Literal_Digits ''seq='') repl post = post"
    by (rule re_sub_no_match)
next
  assume a: "\<not> search (Literal_Digits ''seq='') pre \<and> ds \<noteq> [] \<and> list_all is_digit ds
      \<and> (post = [] \<or> \<not> is_digit (hd post))"
  have "re_sub (Literal_Digits ''seq='') repl (pre @ ''seq='' @ ds @ post)
      = pre @ repl @ re_sub (Literal_Digits ''seq='') repl post" for repl
    using a re_sub_before_token [of pre repl "ds @ post"] re_sub_token [of ds post repl]
    by simp
  then show "derive_work_items (pre @ ''seq='' @ ds @ post) npages (Member BABLE)
          = Inr (map (\<lambda>i. (i, pre @ ''seq='' @ str i
                               @ re_sub (Literal_Digits ''seq='') (''seq='' @ str i) post))
                   [1 .. npages])"
    by (simp add: derive_work_items_def url_info_loop_def)
qed

text \<open>The theorem at a base URL with one token, for two pages.\<close>

theorem url_info_substitution_witness:
  "\<not> search (Literal_Digits ''seq='') ''img?id=c1;''
   \<and> ''7'' \<noteq> [] \<and> list_all is_digit ''7'' \<and> \<not> is_digit (hd '';size=125'')
   \<and> derive_work_items ''img?id=c1;seq=7;size=125'' 2 (Member BABLE)
       = Inr [(1, ''img?id=c1;seq=1;size=125''), (2, ''img?id=c1;seq=2;size=125'')]
   \<and> \<not> search (Literal_Digits ''seq='') '';size=125''
   \<and> re_sub (Literal_Digits ''seq='') ''seq=2'' '';size=125'' = '';size=125''"
proof -
  have h1: "\<not> search (Literal_Digits ''seq='') ''img?id=c1;''"
    by simp
  have h2: "''7'' \<noteq> [] \<and> list_all is_digit ''7'' \<and> \<not> is_digit (hd '';size=125'')"
    by (simp add: is_digit_def)
  have h3: "\<not> search (Literal_Digits ''seq='') '';size=125''"
    by simp
  have s: "str 1 = ''1''" "str 2 = ''2''"
    by (simp_all add: str_def str_nat.simps digit_char_def)
  have u: "[1 .. 2 :: int] = [1, 2]"
    by (simp add: upto_rec1)
  show ?thesis
    using url_info_substitution [of "''img?id=c1;''" "''7''" "'';size=125''" 2 "''seq=2''"]
      h1 h2 h3
    by (simp add: s u)
qed

text \<open>
  Claim C6 as stated fails where the base URL has two occurrences of the token: the
  program replaces both, the first-occurrence rule of the claim only the first.
\<close>

theorem url_info_substitution_counterexample:
  "derive_work_items ''x?seq=7;seq=8'' 1 (Member BABLE) = Inr [(1, ''x?seq=1;seq=1'')]
   \<and> replace_first (Literal_Digits ''seq='') (''seq='' @ str 1) ''x?seq=7;seq=8'' = ''x?seq=1;seq=8''"
  by (simp add: derive_work_items_def url_info_loop_def str_def str_nat.simps digit_char_def
      is_digit_def)

subsection \<open>The retrying fetcher\<close>

lemma randint_bounds: "0 \<le> randint 0 (2 ^ i - 1) raw \<and> randint 0 (2 ^ i - 1) raw \<le> 2 ^ i - 1"
proof -
  have "raw mod 2 ^ i < (2 ^ i :: nat)" by simp
  then have "int (raw mod 2 ^ i) < 2 ^ i"
    by (metis of_nat_less_iff of_nat_numeral of_nat_power)
  then show ?thesis
    by (simp add: randint_def nat_power_eq)
qed

lemma randint_attained:
  assumes "0 \<le> d" and "d \<le> 2 ^ i - 1"
  shows "randint 0 (2 ^ i - 1) (nat d) = d"
proof -
  have "nat d < 2 ^ i"
    using assms by (simp add: nat_less_iff)
  then show ?thesis
    using assms(1) by (simp add: randint_def nat_power_eq)
qed

lemma fetch_loop_done: "10 \<le> i \<Longrightarrow> fetch_loop net rnd url_info i = ([], Returned None)"
  by (simp add: fetch_loop.simps)

lemma fetch_loop_Body:
  "i < 10 \<Longrightarrow> net url_info i = Body b \<Longrightarrow>
     fetch_loop net rnd url_info i = ([Urlopen (fst url_info) i], Returned (Some (fst url_info, b)))"
  by (simp add: fetch_loop.simps [of net rnd url_info i])

lemma fetch_loop_OtherError:
  "i < 10 \<Longrightarrow> net url_info i = OtherError \<Longrightarrow>
     fetch_loop net rnd url_info i = ([Urlopen (fst url_info) i], Raised FetchError)"
  by (simp add: fetch_loop.simps [of net rnd url_info i])

lemma fetch_loop_HTTPError:
  "i < 10 \<Longrightarrow> net url_info i = HTTPError \<Longrightarrow>
     fetch_loop net rnd url_info i =
       (Urlopen (fst url_info) i
          # Sleep (fst url_info) i (randint 0 (2 ^ i - 1) (rnd url_info i))
          # fst (fetch_loop net rnd url_info (Suc i)),
        snd (fetch_loop net rnd url_info (Suc i)))"
  by (simp add: fetch_loop.simps [of net rnd url_info i] Let_def)

lemma fetch_loop_sleeps:
  "\<forall>ev \<in> set (fst (fetch_loop net rnd url_info i)). sleep_in_bounds ev"
proof (induction net rnd url_info i rule: fetch_loop.induct)
  case (1 net rnd url_info i)
  show ?case
  proof (cases "10 \<le> i")
    case True
    then show ?thesis by (simp add: fetch_loop_done)
  next
    case False
    then have small: "i < 10" by simp
    show ?thesis
    proof (cases "net url_info i")
      case (Body b)
      then show ?thesis using small by (simp add: fetch_loop_Body)
    next
      case OtherError
      then show ?thesis using small by (simp add: fetch_loop_OtherError)
    next
      case HTTPError
      have "\<forall>ev \<in> set (fst (fetch_loop net rnd url_info (Suc i))). sleep_in_bounds ev"
        using "1.IH" False HTTPError by simp
      then show ?thesis
        using small HTTPError randint_bounds [of i "rnd url_info i"]
        by (simp add: fetch_loop_HTTPError)
    qed
  qed
qed

lemma fetch_loop_attempts:
  "length (filter is_urlopen (fst (fetch_loop net rnd url_info i))) \<le> 10 - i"
proof (induction net rnd url_info i rule: fetch_loop.induct)
  case (1 net rnd url_info i)
  show ?case
  proof (cases "10 \<le> i")
    case True
    then show ?thesis by (simp add: fetch_loop_done)
  next
    case False
    then have small: "i < 10" by simp
    show ?thesis
    proof (cases "net url_info i")
      case (Body b)
      then show ?thesis using small by (simp add: fetch_loop_Body)
    next
      case OtherError
      then show ?thesis using small by (simp add: fetch_loop_OtherError)
    next
      case HTTPError
      have "length (filter is_urlopen (fst (fetch_loop net rnd url_info (Suc i)))) \<le> 10 - Suc i"
        using "1.IH" False HTTPError by simp
      then show ?thesis
        using small HTTPError by (simp add: fetch_loop_HTTPError)
    qed
  qed
qed

lemma fetch_loop_exhausted:
  "\<forall>k. i \<le> k \<and> k < 10 \<longrightarrow> net url_info k = HTTPError \<Longrightarrow>
     fetch_loop net rnd url_info i =
       (concat (map (\<lambda>k. [Urlopen (fst url_info) k,
                           Sleep (fst url_info) k (randint 0 (2 ^ k - 1) (rnd url_info k))])
                    [i ..< 10]),
        Returned None)"
proof (induction net rnd url_info i rule: fetch_loop.induct)
  case (1 net rnd url_info i)
  show ?case
  proof (cases "10 \<le> i")
    case True
    then show ?thesis by (simp add: fetch_loop_done)
  next
    case False
    then have small: "i < 10" by simp
    have err: "net url_info i = HTTPError"
      using "1.prems" small by simp
    have later: "\<forall>k. Suc i \<le> k \<and> k < 10 \<longrightarrow> net url_info k = HTTPError"
      using "1.prems" by simp
    have ih: "fetch_loop net rnd url_info (Suc i) =
       (concat (map (\<lambda>k. [Urlopen (fst url_info) k,
                           Sleep (fst url_info) k (randint 0 (2 ^ k - 1) (rnd url_info k))])
                    [Suc i ..< 10]),
        Returned None)"
      using "1.IH" False err later by simp
    have range: "[i ..< 10] = i # [Suc i ..< 10]"
      using small by (simp add: upt_conv_Cons)
    show ?thesis
      by (simp add: fetch_loop_HTTPError [where net = net and url_info = url_info, OF small err]
          ih range)
  qed
qed

lemma fetch_loop_sleep_after_failure:
  "i \<le> j \<Longrightarrow> j < 10 \<Longrightarrow> \<forall>k. i \<le> k \<and> k \<le> j \<longrightarrow> net url_info k = HTTPError \<Longrightarrow>
     Sleep (fst url_info) j (randint 0 (2 ^ j - 1) (rnd url_info j))
       \<in> set (fst (fetch_loop net rnd url_info i))"
proof (induction net rnd url_info i rule: fetch_loop.induct)
  case (1 net rnd url_info i)
  have small: "i < 10" and err: "net url_info i = HTTPError"
    using "1.prems" by simp_all
  note step = fetch_loop_HTTPError [where net = net and url_info = url_info and rnd = rnd,
      OF small err]
  show ?case
  proof (cases "i = j")
    case True
    show ?thesis
      by (simp add: step True [symmetric])
  next
    case False
    then have "Suc i \<le> j" using "1.prems"(1) by simp
    moreover have "\<forall>k. Suc i \<le> k \<and> k \<le> j \<longrightarrow> net url_info k = HTTPError"
      using "1.prems"(3) by simp
    ultimately have "Sleep (fst url_info) j (randint 0 (2 ^ j - 1) (rnd url_info j))
       \<in> set (fst (fetch_loop net rnd url_info (Suc i)))"
      using "1.IH" small err "1.prems"(2) by simp
    then show ?thesis
      by (simp add: step)
  qed
qed


text \<open>
  Claim C5, amended. Every sleep of a fetch follows one of the ten attempts, and after
  the failed attempt \<open>i\<close> (counted from 0) its duration is an integer of the closed
  interval from 0 to \<open>2 ^ i - 1\<close>, both ends included; a fetch calls \<open>urlopen\<close> at
  most ten times; each attempt that fails with an HTTP error, after only such failures,
  is followed by a sleep drawn for it; and every integer of the closed interval is a
  possible draw.
\<close>

theorem fetch_image_backoff:
  "(\<forall>ev \<in> set (fst (fetch_image net rnd url_info)). sleep_in_bounds ev)
   \<and> length (filter is_urlopen (fst (fetch_image net rnd url_info))) \<le> 10
   \<and> (\<forall>j < 10. (\<forall>k \<le> j. net url_info k = HTTPError) \<longrightarrow>
          Sleep (fst url_info) j (randint 0 (2 ^ j - 1) (rnd url_info j))
            \<in> set (fst (fetch_image net rnd url_info)))
   \<and> (\<forall>j d. 0 \<le> d \<and> d \<le> 2 ^ j - 1 \<longrightarrow> randint 0 (2 ^ j - 1) (nat d) = d)"
proof (intro conjI)
  show "\<forall>ev \<in> set (fst (fetch_image net rnd url_info)). sleep_in_bounds ev"
    unfolding fetch_image_def by (rule fetch_loop_sleeps)
  show "length (filter is_urlopen (fst (fetch_image net rnd url_info))) \<le> 10"
    using fetch_loop_attempts [of net rnd url_info 0] by (simp add: fetch_image_def)
  show "\<forall>j < 10. (\<forall>k \<le> j. net url_info k = HTTPError) \<longrightarrow>
          Sleep (fst url_info) j (randint 0 (2 ^ j - 1) (rnd url_info j))
            \<in> set (fst (fetch_image net rnd url_info))"
    unfolding fetch_image_def
    by (intro allI impI fetch_loop_sleep_after_failure) simp_all
  show "\<forall>j d. 0 \<le> d \<and> d \<le> 2 ^ j - 1 \<longrightarrow> randint 0 (2 ^ j - 1) (nat d) = d"
    by (simp add: randint_attained)
qed

text \<open>The theorem at a fetch whose first two attempts fail, with the draw 1 after attempt 1.\<close>

theorem fetch_image_backoff_witness:
  "Sleep 5 1 1
     \<in> set (fst (fetch_image (\<lambda>u i. if i < 2 then HTTPError else Body [7]) (\<lambda>u i. 3) (5, ''u'')))
   \<and> sleep_in_bounds (Sleep 5 1 1)
   \<and> list_all (\<lambda>k. (\<lambda>u i. if i < (2 :: nat) then HTTPError else Body [7]) (5 :: int, ''u'') k
                      = HTTPError) [0, 1]
   \<and> (0 :: int) \<le> 1 \<and> (1 :: int) \<le> 2 ^ 1 - 1 \<and> randint 0 (2 ^ 1 - 1) (nat 1) = 1"
proof -
  let ?net = "\<lambda>(u :: int \<times> string) (i :: nat). if i < 2 then HTTPError else Body [7]"
  let ?rnd = "\<lambda>(u :: int \<times> string) (i :: nat). 3 :: nat"
  note inst = fetch_image_backoff [of ?net ?rnd "(5, ''u'')"]
  have fails: "\<forall>k \<le> 1. ?net (5, ''u'') k = HTTPError"
    by simp
  have draw: "randint 0 (2 ^ 1 - 1) (?rnd (5, ''u'') 1) = 1"
    by (simp add: randint_def)
  from inst have "\<forall>j < 10. (\<forall>k \<le> j. ?net (5, ''u'') k = HTTPError) \<longrightarrow>
          Sleep (fst (5 :: int, ''u'')) j (randint 0 (2 ^ j - 1) (?rnd (5, ''u'') j))
            \<in> set (fst (fetch_image ?net ?rnd (5, ''u'')))"
    by (elim conjE)
  then have "(\<forall>k \<le> 1. ?net (5, ''u'') k = HTTPError) \<longrightarrow>
          Sleep (fst (5 :: int, ''u'')) 1 (randint 0 (2 ^ 1 - 1) (?rnd (5, ''u'') 1))
            \<in> set (fst (fetch_image ?net ?rnd (5, ''u'')))"
    by (elim allE [where x = 1] impE) simp_all
  with fails have mem: "Sleep 5 1 1 \<in> set (fst (fetch_image ?net ?rnd (5, ''u'')))"
    by (simp only: draw fst_conv)
  from inst have "\<forall>ev \<in> set (fst (fetch_image ?net ?rnd (5, ''u''))). sleep_in_bounds ev"
    by (elim conjE)
  from this mem have bound: "sleep_in_bounds (Sleep 5 1 1)"
    by (rule bspec)
  from inst have "\<forall>j d. 0 \<le> d \<and> d \<le> 2 ^ j - 1 \<longrightarrow> randint 0 (2 ^ j - 1) (nat d) = d"
    by (elim conjE)
  then have att: "randint 0 (2 ^ 1 - 1) (nat 1) = 1"
    by (elim allE [where x = 1] impE) simp_all
  show ?thesis
    using mem bound att by simp
qed

text \<open>
  Claim C5 as stated fails: after attempt 0 the fetcher sleeps 0 seconds, and the
  half-open interval from 0 to \<open>2 ^ 0 - 1\<close> is empty; after attempt 1 it can sleep
  1 second, which the half-open interval from 0 to \<open>2 ^ 1 - 1\<close> excludes.
\<close>

theorem fetch_image_backoff_counterexample:
  "Sleep 5 0 0 \<in> set (fst (fetch_image (\<lambda>u i. HTTPError) (\<lambda>u i. 3) (5, ''u'')))
   \<and> (0 :: int) \<notin> {0 ..< 2 ^ 0 - 1}
   \<and> Sleep 5 1 1 \<in> set (fst (fetch_image (\<lambda>u i. HTTPError) (\<lambda>u i. 3) (5, ''u'')))
   \<and> (1 :: int) \<notin> {0 ..< 2 ^ 1 - 1}"
  by (simp add: fetch_image_def fetch_loop.simps randint_def)

text \<open>
  Claim C10. When each of the ten attempts of a fetch fails with an HTTP error, the
  fetch makes ten attempts, each followed by a sleep; its last action is the sleep drawn
  for the final attempt, of at most \<open>2 ^ 9 - 1\<close> seconds (a value that can be drawn),
  with no attempt after it; and it returns \<open>None\<close>.
\<close>

theorem fetch_image_exhausted:
  "(\<forall>i < 10. net url_info i = HTTPError) \<longrightarrow>
     snd (fetch_image net rnd url_info) = Returned None
     \<and> fst (fetch_image net rnd url_info) =
         concat (map (\<lambda>i. [Urlopen (fst url_info) i,
                             Sleep (fst url_info) i (randint 0 (2 ^ i - 1) (rnd url_info i))])
                     [0 ..< 10])
     \<and> last (fst (fetch_image net rnd url_info))
         = Sleep (fst url_info) 9 (randint 0 (2 ^ 9 - 1) (rnd url_info 9))
     \<and> 0 \<le> randint 0 (2 ^ 9 - 1) (rnd url_info 9)
     \<and> randint 0 (2 ^ 9 - 1) (rnd url_info 9) \<le> 2 ^ 9 - 1
     \<and> randint 0 (2 ^ 9 - 1) (nat (2 ^ 9 - 1)) = 2 ^ 9 - 1"
proof (intro impI)
  assume "\<forall>i < 10. net url_info i = HTTPError"
  then have run: "fetch_image net rnd url_info =
       (concat (map (\<lambda>k. [Urlopen (fst url_info) k,
                           Sleep (fst url_info) k (randint 0 (2 ^ k - 1) (rnd url_info k))])
                    [0 ..< 10]),
        Returned None)"
    unfolding fetch_image_def by (intro fetch_loop_exhausted) simp
  have range: "[0 ..< 10] = [0 ..< 9] @ [9 :: nat]"
    by (simp add: upt_rec)
  have "last (fst (fetch_image net rnd url_info))
         = Sleep (fst url_info) 9 (randint 0 (2 ^ 9 - 1) (rnd url_info 9))"
    by (simp only: run fst_conv range map_append concat_append) simp
  moreover have "randint 0 (2 ^ 9 - 1) (nat (2 ^ 9 - 1)) = 2 ^ 9 - 1"
    by (rule randint_attained) simp_all
  ultimately show "snd (fetch_image net rnd url_info) = Returned None
     \<and> fst (fetch_image net rnd url_info) =
         concat (map (\<lambda>i. [Urlopen (fst url_info) i,
                             Sleep (fst url_info) i (randint 0 (2 ^ i - 1) (rnd url_info i))])
                     [0 ..< 10])
     \<and> last (fst (fetch_image net rnd url_info))
         = Sleep (fst url_info) 9 (randint 0 (2 ^ 9 - 1) (rnd url_info 9))
     \<and> 0 \<le> randint 0 (2 ^ 9 - 1) (rnd url_info 9)
     \<and> randint 0 (2 ^ 9 - 1) (rnd url_info 9) \<le> 2 ^ 9 - 1
     \<and> randint 0 (2 ^ 9 - 1) (nat (2 ^ 9 - 1)) = 2 ^ 9 - 1"
    using randint_bounds [of 9 "rnd url_info 9"] by (simp only: run fst_conv snd_conv)
qed

text \<open>The theorem at a network that always answers with an HTTP error.\<close>

theorem fetch_image_exhausted_witness:
  "list_all (\<lambda>i. (\<lambda>u i. HTTPError) (5 :: int, ''u'') (i :: nat) = HTTPError) [0 ..< 10]
   \<and> snd (fetch_image (\<lambda>u i. HTTPError) (\<lambda>u i. 511) (5, ''u'')) = Returned None
   \<and> last (fst (fetch_image (\<lambda>u i. HTTPError) (\<lambda>u i. 511) (5, ''u''))) = Sleep 5 9 511"
proof -
  have h: "\<forall>i < 10. (\<lambda>u i. HTTPError) (5 :: int, ''u'') (i :: nat) = HTTPError"
    by simp
  have d: "randint 0 (2 ^ 9 - 1) 511 = 511"
    by (simp add: randint_def)
  note inst = fetch_image_exhausted [of "\<lambda>u i. HTTPError" "(5, ''u'')" "\<lambda>u i. 511"]
  from inst h have "snd (fetch_image (\<lambda>u i. HTTPError) (\<lambda>u i. 511) (5, ''u'')) = Returned None"
    and "last (fst (fetch_image (\<lambda>u i. HTTPError) (\<lambda>u i. 511) (5, ''u'')))
           = Sleep (fst (5 :: int, ''u'')) 9 (randint 0 (2 ^ 9 - 1) 511)"
    by blast+
  moreover have "list_all (\<lambda>i. (\<lambda>u i. HTTPError) (5 :: int, ''u'') (i :: nat) = HTTPError) [0 ..< 10]"
    by (simp add: list_all_iff)
  ultimately show ?thesis
    by (simp only: d fst_conv simp_thms)
qed

subsection \<open>Unrecognized URLs\<close>

text \<open>
  Claim C7, amended. For a URL that does not contain \<open>babel.hathitrust.org\<close> the download
  step of \<open>main\<close> prints that the URL is not recognized and returns normally: no error is
  raised and no \<open>urlopen\<close> call is made. For the site rule of the program, deriving the
  work items of a base URL without a \<open>seq=\<close>-digits token raises no error either: every
  work item carries the base URL unchanged.
\<close>

theorem unrecognized_url_exits:
  "(\<not> contains ''babel.hathitrust.org'' url \<longrightarrow>
      main_download net rnd completion url pages img_dir
        = (Inr (), \<lparr>files = Map.empty, trace = [Print ''Not a recognized URL, exiting...'']\<rparr>)
      \<and> filter is_urlopen (trace (snd (main_download net rnd completion url pages img_dir))) = [])
   \<and> (\<not> search (Literal_Digits ''seq='') base_url \<longrightarrow>
      derive_work_items base_url npages (Member BABLE) = Inr (map (\<lambda>i. (i, base_url)) [1 .. npages]))"
  by (simp add: main_download_def derive_work_items_def url_info_loop_def re_sub_no_match)

text \<open>The theorem at a URL of another site, without the token.\<close>

theorem unrecognized_url_exits_witness:
  "\<not> contains ''babel.hathitrust.org'' ''http://example.org/page''
   \<and> fst (main_download (\<lambda>u i. HTTPError) (\<lambda>u i. 0) (\<lambda>xs. xs) ''http://example.org/page'' 2 ''tmp'')
       = Inr ()
   \<and> trace (snd (main_download (\<lambda>u i. HTTPError) (\<lambda>u i. 0) (\<lambda>xs. xs) ''http://example.org/page'' 2 ''tmp''))
       = [Print ''Not a recognized URL, exiting...'']
   \<and> \<not> search (Literal_Digits ''seq='') ''http://example.org/page''
   \<and> derive_work_items ''http://example.org/page'' 2 (Member BABLE)
       = Inr [(1, ''http://example.org/page''), (2, ''http://example.org/page'')]"
proof -
  have h1: "\<not> contains ''babel.hathitrust.org'' ''http://example.org/page''"
    by simp
  have h2: "\<not> search (Literal_Digits ''seq='') ''http://example.org/page''"
    by simp
  have u: "[1 .. 2 :: int] = [1, 2]"
    by (simp add: upto_rec1)
  note inst = unrecognized_url_exits [of "''http://example.org/page''" "\<lambda>u i. HTTPError"
      "\<lambda>u i. 0" "\<lambda>xs. xs" 2 "''tmp''" "''http://example.org/page''" 2]
  from inst h1 have "main_download (\<lambda>u i. HTTPError) (\<lambda>u i. 0) (\<lambda>xs. xs) ''http://example.org/page'' 2 ''tmp''
        = (Inr (), \<lparr>files = Map.empty, trace = [Print ''Not a recognized URL, exiting...'']\<rparr>)"
    by blast
  moreover from inst h2 have "derive_work_items ''http://example.org/page'' 2 (Member BABLE)
       = Inr [(1, ''http://example.org/page''), (2, ''http://example.org/page'')]"
    by (simp add: u)
  ultimately show ?thesis
    using h1 h2 by simp
qed

text \<open>
  Claim C7 as stated fails: for a URL that matches no site pattern, deriving the work
  items succeeds and the download step of \<open>main\<close> returns normally; no error is raised.
\<close>

theorem unrecognized_url_counterexample:
  "\<not> contains ''babel.hathitrust.org'' ''http://example.org/page''
   \<and> \<not> search (Literal_Digits ''seq='') ''http://example.org/page''
   \<and> derive_work_items ''http://example.org/page'' 1 (Member BABLE)
       = Inr [(1, ''http://example.org/page'')]
   \<and> fst (main_download (\<lambda>u i. HTTPError) (\<lambda>u i. 0) (\<lambda>xs. xs) ''http://example.org/page'' 1 ''tmp'')
       = Inr ()"
  by (simp add: main_download_def derive_work_items_def url_info_loop_def)

subsection \<open>The coordinator on a batch with a page that never loads\<close>

lemma ten_work_items:
  "derive_work_items ''babel.hathitrust.org/image?seq=1'' 10 (Member BABLE) = Inr
     [(1, ''babel.hathitrust.org/image?seq=1''), (2, ''babel.hathitrust.org/image?seq=2''),
      (3, ''babel.hathitrust.org/image?seq=3''), (4, ''babel.hathitrust.org/image?seq=4''),
      (5, ''babel.hathitrust.org/image?seq=5''), (6, ''babel.hathitrust.org/image?seq=6''),
      (7, ''babel.hathitrust.org/image?seq=7''), (8, ''babel.hathitrust.org/image?seq=8''),
      (9, ''babel.hathitrust.org/image?seq=9''), (10, ''babel.hathitrust.org/image?seq=10'')]"
  by (simp add: derive_work_items_def url_info_loop_def upto_rec1 str_def str_nat.simps
      digit_char_def is_digit_def)

lemma fetch_image_other_pages:
  "p \<noteq> 5 \<Longrightarrow>
   fetch_image (\<lambda>u i. if fst u = 5 then HTTPError else Body jpeg_body) rnd (p, url)
     = ([Urlopen p 0], Returned (Some (p, jpeg_body)))"
  by (simp add: fetch_image_def fetch_loop_Body)

lemma fetch_image_page_5:
  "snd (fetch_image (\<lambda>u i. if fst u = 5 then HTTPError else Body jpeg_body) rnd (5, url))
     = Returned None"
  by (simp add: fetch_image_def fetch_loop_exhausted)

lemma jpeg_body_type: "determine_filetype (hex (take 16 jpeg_body)) = ''.jpg''"
  using image_type_of_spec [of jpeg_body]
  by (simp add: image_type_of_def starting_bytes_of_def signature_table_def jpeg_body_def)

lemma str_1_to_4: "str 1 = ''1''" "str 2 = ''2''" "str 3 = ''3''" "str 4 = ''4''"
  by (simp_all add: str_def str_nat.simps digit_char_def)

text \<open>
  Claim C1 at a batch of ten pages where every attempt for page 5 fails with an HTTP
  error and the results are taken in page order: \<open>fetch_image\<close> returns \<open>None\<close> for page
  5, \<open>download_images\<close> raises \<open>TypeError\<close> on it, and only pages 1 to 4 are written.
\<close>

theorem download_images_terminal_failure:
  "fst (download_images (\<lambda>u i. if fst u = 5 then HTTPError else Body jpeg_body) (\<lambda>u i. 0)
         (\<lambda>xs. xs) ''babel.hathitrust.org/image?seq=1'' 10 ''tmp'' (Member BABLE)
         \<lparr>files = Map.empty, trace = []\<rparr>) = Inl TypeError
   \<and> dom (files (snd (download_images (\<lambda>u i. if fst u = 5 then HTTPError else Body jpeg_body)
         (\<lambda>u i. 0) (\<lambda>xs. xs) ''babel.hathitrust.org/image?seq=1'' 10 ''tmp'' (Member BABLE)
         \<lparr>files = Map.empty, trace = []\<rparr>)))
       = {''tmp/1.jpg'', ''tmp/2.jpg'', ''tmp/3.jpg'', ''tmp/4.jpg''}"
proof -
  let ?net = "\<lambda>(u :: int \<times> string) (i :: nat). if fst u = 5 then HTTPError else Body jpeg_body"
  let ?rnd = "\<lambda>(u :: int \<times> string) (i :: nat). 0 :: nat"
  obtain evs where five: "fetch_image ?net ?rnd (5, ''babel.hathitrust.org/image?seq=5'')
      = (evs, Returned None)"
    using fetch_image_page_5 [of ?rnd "''babel.hathitrust.org/image?seq=5''"]
    by (cases "fetch_image ?net ?rnd (5, ''babel.hathitrust.org/image?seq=5'')") simp
  show ?thesis
    by (simp add: download_images_def ten_work_items fetch_image_other_pages five jpeg_body_type join_def str_1_to_4 Let_def
        insert_commute)
qed

subsection \<open>The page store: ordering\<close>

lemma split_dot_not_Nil: "split_dot s \<noteq> []"
  by (induction s) simp_all

lemma split_dot_no_dot: "CHR ''.'' \<notin> set s \<Longrightarrow> split_dot s = [s]"
  by (induction s) auto

lemma split_dot_append_dot:
  "CHR ''.'' \<notin> set s \<Longrightarrow> split_dot (s @ CHR ''.'' # r) = s # split_dot r"
  by (induction s) auto

lemma hd_split_dot_append:
  "CHR ''.'' \<notin> set s \<Longrightarrow> hd (split_dot (s @ r)) = s @ hd (split_dot r)"
  by (induction s) auto

lemma last_split_dot_Cons:
  "last (split_dot (c # cs)) =
     (if CHR ''.'' \<in> set cs then last (split_dot cs)
      else if c = CHR ''.'' then cs else c # cs)"
proof (cases "CHR ''.'' \<in> set cs")
  case False
  then show ?thesis by (simp add: split_dot_no_dot)
next
  case True
  then obtain a b where cs: "cs = a @ CHR ''.'' # b" and a: "CHR ''.'' \<notin> set a"
    by (meson split_list_first)
  have "split_dot cs = a # split_dot b"
    using a by (simp add: cs split_dot_append_dot)
  then show ?thesis
    using True by (simp add: split_dot_not_Nil)
qed

lemma last_split_dot_append_dot:
  "CHR ''.'' \<notin> set ext \<Longrightarrow> last (split_dot (stem @ CHR ''.'' # ext)) = ext"
proof (induction stem)
  case Nil
  then show ?case by (simp add: split_dot_no_dot)
next
  case (Cons c stem)
  have "CHR ''.'' \<in> set (stem @ CHR ''.'' # ext)" by simp
  then have "last (split_dot (c # stem @ CHR ''.'' # ext)) = last (split_dot (stem @ CHR ''.'' # ext))"
    by (simp only: last_split_dot_Cons if_True)
  then show ?case
    using Cons by simp
qed

lemma last_split_dot_cases:
  "s = last (split_dot s) \<or> (\<exists>stem. s = stem @ CHR ''.'' # last (split_dot s))"
proof (induction s)
  case Nil
  show ?case by simp
next
  case (Cons c cs)
  show ?case
  proof (cases "CHR ''.'' \<in> set cs")
    case True
    then have l: "last (split_dot (c # cs)) = last (split_dot cs)"
      by (simp only: last_split_dot_Cons if_True)
    from True have "cs \<noteq> last (split_dot cs)"
      by (metis last_in_set split_dot_not_Nil last_split_dot_Cons split_dot_no_dot
          in_set_conv_decomp last_split_dot_append_dot split_list_last)
    with Cons.IH obtain stem where "cs = stem @ CHR ''.'' # last (split_dot cs)"
      by blast
    then have "c # cs = (c # stem) @ CHR ''.'' # last (split_dot (c # cs))"
      by (simp only: l append_Cons)
    then show ?thesis by blast
  next
    case False
    show ?thesis
    proof (cases "c = CHR ''.''")
      case True
      with False have "c # cs = [] @ CHR ''.'' # last (split_dot (c # cs))"
        by (simp add: split_dot_no_dot)
      then show ?thesis by blast
    next
      case c: False
      with False show ?thesis by (simp add: split_dot_no_dot)
    qed
  qed
qed

lemma is_image_iff:
  "is_image f \<longleftrightarrow>
     f \<in> set [''jpg'', ''png'', ''gif'']
     \<or> (\<exists>stem ext. f = stem @ ''.'' @ ext \<and> ext \<in> set [''jpg'', ''png'', ''gif''])"
proof
  assume "is_image f"
  then have e: "last (split_dot f) \<in> set [''jpg'', ''png'', ''gif'']"
    by (simp add: is_image_def)
  from last_split_dot_cases [of f] show "f \<in> set [''jpg'', ''png'', ''gif'']
     \<or> (\<exists>stem ext. f = stem @ ''.'' @ ext \<and> ext \<in> set [''jpg'', ''png'', ''gif''])"
  proof
    assume "f = last (split_dot f)"
    with e show ?thesis by simp
  next
    assume "\<exists>stem. f = stem @ CHR ''.'' # last (split_dot f)"
    then obtain stem where "f = stem @ ''.'' @ last (split_dot f)" by auto
    with e show ?thesis by blast
  qed
next
  assume "f \<in> set [''jpg'', ''png'', ''gif'']
     \<or> (\<exists>stem ext. f = stem @ ''.'' @ ext \<and> ext \<in> set [''jpg'', ''png'', ''gif''])"
  then show "is_image f"
  proof
    assume "f \<in> set [''jpg'', ''png'', ''gif'']"
    then show ?thesis by (auto simp: is_image_def)
  next
    assume "\<exists>stem ext. f = stem @ ''.'' @ ext \<and> ext \<in> set [''jpg'', ''png'', ''gif'']"
    then obtain stem ext where f: "f = stem @ CHR ''.'' # ext"
      and ext: "ext \<in> set [''jpg'', ''png'', ''gif'']" by auto
    from ext have "CHR ''.'' \<notin> set ext" by auto
    then have "last (split_dot f) = ext"
      unfolding f by (rule last_split_dot_append_dot)
    with ext show ?thesis by (simp add: is_image_def)
  qed
qed

lemma digit_char_table:
  "list_all (\<lambda>n. is_digit (digit_char n) \<and> digit_val (digit_char n) = n) [0 ..< 10]"
  by (simp add: digit_char_def is_digit_def digit_val_def upt_rec)

lemma is_digit_digit_char: "n < 10 \<Longrightarrow> is_digit (digit_char n)"
  using digit_char_table by (simp add: list_all_iff)

lemma digit_val_digit_char: "n < 10 \<Longrightarrow> digit_val (digit_char n) = n"
  using digit_char_table by (simp add: list_all_iff)

lemma is_digit_not_special:
  "is_digit c \<Longrightarrow> \<not> is_space c \<and> c \<noteq> CHR ''.'' \<and> c \<noteq> CHR ''-'' \<and> c \<noteq> CHR ''+''"
  by (auto simp: is_digit_def is_space_def)

lemma str_nat_digits: "list_all is_digit (str_nat n) \<and> str_nat n \<noteq> []"
proof (induction n rule: str_nat.induct)
  case (1 n)
  show ?case
  proof (cases "n < 10")
    case True
    then show ?thesis
      by (simp add: str_nat.simps [of n] is_digit_digit_char)
  next
    case False
    then show ?thesis
      using "1.IH" by (simp add: str_nat.simps [of n] is_digit_digit_char)
  qed
qed

lemma digits_acc_snoc:
  "list_all is_digit ds \<Longrightarrow> is_digit c \<Longrightarrow>
     digits_acc acc (ds @ [c]) = map_option (\<lambda>v. 10 * v + digit_val c) (digits_acc acc ds)"
proof (induction acc ds rule: digits_acc.induct)
  case (1 acc)
  then show ?case by simp
next
  case (2 acc d)
  then show ?case by simp
next
  case (3 acc d e ds)
  then show ?case by simp
qed

lemma parse_digits_snoc:
  "list_all is_digit ds \<Longrightarrow> ds \<noteq> [] \<Longrightarrow> is_digit c \<Longrightarrow>
     parse_digits (ds @ [c]) = map_option (\<lambda>v. 10 * v + digit_val c) (parse_digits ds)"
  by (cases ds) (simp_all add: digits_acc_snoc)

lemma parse_digits_str_nat: "parse_digits (str_nat n) = Some n"
proof (induction n rule: str_nat.induct)
  case (1 n)
  show ?case
  proof (cases "n < 10")
    case True
    then show ?thesis
      by (simp add: str_nat.simps [of n] is_digit_digit_char digit_val_digit_char)
  next
    case False
    then have ih: "parse_digits (str_nat (n div 10)) = Some (n div 10)"
      using "1.IH" by simp
    have "parse_digits (str_nat (n div 10) @ [digit_char (n mod 10)])
        = map_option (\<lambda>v. 10 * v + digit_val (digit_char (n mod 10)))
            (parse_digits (str_nat (n div 10)))"
      by (rule parse_digits_snoc) (simp_all add: str_nat_digits is_digit_digit_char)
    then show ?thesis
      using False by (simp add: str_nat.simps [of n] ih digit_val_digit_char)
  qed
qed

lemma strip_digits:
  assumes "list_all is_digit s"
  shows "strip s = s"
proof -
  have front: "dropWhile is_space t = t" if "list_all is_digit t" for t
    using that by (cases t) (simp_all add: is_digit_not_special)
  have "list_all is_digit (rev s)"
    using assms by (simp add: list_all_iff)
  then show ?thesis
    by (simp add: strip_def front assms)
qed

lemma int_of_str_str_nat: "int_of_str (str_nat n) = Some (int n)"
proof -
  obtain c cs where s: "str_nat n = c # cs" and c: "is_digit c"
    using str_nat_digits [of n] by (cases "str_nat n") simp_all
  have "strip (str_nat n) = c # cs"
    using str_nat_digits [of n] s by (simp add: strip_digits)
  then show ?thesis
    using c parse_digits_str_nat [of n]
    by (simp add: int_of_str_def is_digit_not_special s)
qed

lemma int_of_str_str: "0 \<le> i \<Longrightarrow> int_of_str (str i) = Some i"
  by (simp add: str_def int_of_str_str_nat)

lemma str_no_dot: "0 \<le> i \<Longrightarrow> CHR ''.'' \<notin> set (str i)"
  using str_nat_digits [of "nat i"] is_digit_not_special
  by (auto simp: str_def list_all_iff)

lemma str_not_extension: "0 \<le> i \<Longrightarrow> str i \<notin> set [''jpg'', ''png'', ''gif'']"
  using str_nat_digits [of "nat i"]
  by (auto simp: str_def is_digit_def)

lemma insort_key_map:
  "insort_key f (g x) (map g ys) = map g (insort_key (\<lambda>y. f (g y)) x ys)"
  by (induction ys) simp_all

lemma sort_key_map: "sort_key f (map g xs) = map g (sort_key (\<lambda>y. f (g y)) xs)"
  by (induction xs) (simp_all add: insort_key_map)

lemma distinct_map_sort_key: "distinct (map f (sort_key f xs)) = distinct (map f xs)"
proof -
  have "mset (map f (sort_key f xs)) = mset (map f xs)"
    by simp
  then show ?thesis
    by (rule mset_eq_imp_distinct_iff)
qed

lemma is_image_page_file:
  assumes "0 \<le> fst p" and "snd p \<in> set [''.gif'', ''.png'', ''.jpg'', '''']"
  shows "is_image (page_file p) = (snd p \<noteq> [])"
proof (cases "snd p = []")
  case True
  then have "split_dot (page_file p) = [str (fst p)]"
    using assms(1) by (simp add: page_file_def split_dot_no_dot str_no_dot)
  then show ?thesis
    using True str_not_extension [OF assms(1)] by (simp add: is_image_def)
next
  case False
  then obtain ext where e: "snd p = CHR ''.'' # ext" and ext: "ext \<in> set [''gif'', ''png'', ''jpg'']"
    using assms(2) by auto
  from ext have "CHR ''.'' \<notin> set ext" by auto
  then have "last (split_dot (str (fst p) @ CHR ''.'' # ext)) = ext"
    by (rule last_split_dot_append_dot)
  then show ?thesis
    using False ext by (auto simp: is_image_def page_file_def e)
qed

lemma sort_key_of_page_file:
  assumes "0 \<le> fst p" and "snd p \<in> set [''.gif'', ''.png'', ''.jpg'', '''']"
  shows "sort_key_of (page_file p) = Some (fst p)"
proof -
  have "hd (split_dot (str (fst p) @ snd p)) = str (fst p) @ hd (split_dot (snd p))"
    using assms(1) by (simp add: hd_split_dot_append str_no_dot)
  moreover have "hd (split_dot (snd p)) = []"
    using assms(2) by auto
  ultimately show ?thesis
    using assms(1) by (simp add: sort_key_of_def page_file_def int_of_str_str)
qed

lemma keyed_page_files:
  "\<forall>p \<in> set qs. 0 \<le> fst p \<and> snd p \<in> set [''.gif'', ''.png'', ''.jpg'', ''''] \<Longrightarrow>
     keyed (map page_file qs) = Some (map (\<lambda>p. (fst p, page_file p)) qs)"
  by (induction qs) (simp_all add: sort_key_of_page_file)

lemma filter_is_image_page_files:
  "\<forall>p \<in> set ps. 0 \<le> fst p \<and> snd p \<in> set [''.gif'', ''.png'', ''.jpg'', ''''] \<Longrightarrow>
     filter is_image (map page_file ps) = map page_file (filter (\<lambda>p. snd p \<noteq> []) ps)"
  by (induction ps) (simp_all add: is_image_page_file)

lemma find_images_page_files:
  assumes "\<forall>p \<in> set ps. 0 \<le> fst p \<and> snd p \<in> set [''.gif'', ''.png'', ''.jpg'', '''']"
  shows "find_images directory (map page_file ps)
    = Inr (map (\<lambda>p. join directory (page_file p)) (sort_key fst (filter (\<lambda>p. snd p \<noteq> []) ps)))"
proof -
  let ?qs = "filter (\<lambda>p. snd p \<noteq> []) ps"
  have "\<forall>p \<in> set ?qs. 0 \<le> fst p \<and> snd p \<in> set [''.gif'', ''.png'', ''.jpg'', '''']"
    using assms by auto
  then have k: "keyed (map page_file ?qs) = Some (map (\<lambda>p. (fst p, page_file p)) ?qs)"
    by (rule keyed_page_files)
  have s: "sort_key fst (map (\<lambda>p. (fst p, page_file p)) ?qs)
      = map (\<lambda>p. (fst p, page_file p)) (sort_key fst ?qs)"
    by (simp add: sort_key_map)
  show ?thesis
    by (simp add: find_images_def filter_is_image_page_files [OF assms] k s comp_def)
qed

text \<open>
  Claim C4. The stored files \<open>3.png\<close>, \<open>1.jpg\<close>, \<open>10.gif\<close> are returned in the order
  \<open>1.jpg\<close>, \<open>3.png\<close>, \<open>10.gif\<close>. For every valid store, in whatever order the
  directory lists it, \<open>find_images\<close> succeeds and returns the paths of the files with an
  image extension, sorted by page index; the indices of the returned files are strictly
  ascending, and the returned files are files of the store: nothing is filled in for a
  missing index.
\<close>

theorem find_images_ordering:
  "find_images ''tmp'' [''3.png'', ''1.jpg'', ''10.gif'']
     = Inr [''tmp/1.jpg'', ''tmp/3.png'', ''tmp/10.gif'']
   \<and> (valid_store ps \<longrightarrow>
        find_images directory (map page_file ps)
          = Inr (map (\<lambda>p. join directory (page_file p))
                   (sort_key fst (filter (\<lambda>p. snd p \<noteq> []) ps)))
        \<and> sorted_wrt (<) (map fst (sort_key fst (filter (\<lambda>p. snd p \<noteq> []) ps)))
        \<and> set (sort_key fst (filter (\<lambda>p. snd p \<noteq> []) ps)) = {p \<in> set ps. snd p \<noteq> []})"
proof (intro conjI impI)
  show "find_images ''tmp'' [''3.png'', ''1.jpg'', ''10.gif'']
     = Inr [''tmp/1.jpg'', ''tmp/3.png'', ''tmp/10.gif'']"
    by (simp add: find_images_def is_image_def sort_key_of_def int_of_str_def strip_def
        is_space_def is_digit_def digit_val_def join_def upt_rec)
next
  assume v: "valid_store ps"
  then have "\<forall>p \<in> set ps. 0 \<le> fst p \<and> snd p \<in> set [''.gif'', ''.png'', ''.jpg'', '''']"
    by (auto simp: valid_store_def)
  then show "find_images directory (map page_file ps)
          = Inr (map (\<lambda>p. join directory (page_file p))
                   (sort_key fst (filter (\<lambda>p. snd p \<noteq> []) ps)))"
    by (rule find_images_page_files)
  from v have "distinct (map fst (filter (\<lambda>p. snd p \<noteq> []) ps))"
    by (simp add: valid_store_def distinct_map_filter)
  then show "sorted_wrt (<) (map fst (sort_key fst (filter (\<lambda>p. snd p \<noteq> []) ps)))"
    by (simp add: strict_sorted_iff distinct_map_sort_key)
  show "set (sort_key fst (filter (\<lambda>p. snd p \<noteq> []) ps)) = {p \<in> set ps. snd p \<noteq> []}"
    by simp
qed

text \<open>The theorem at a store of four files, one of them without an extension.\<close>

theorem find_images_ordering_witness:
  "valid_store [(3, ''.png''), (7, ''''), (1, ''.jpg''), (10, ''.gif'')]
   \<and> find_images ''tmp'' [''3.png'', ''7'', ''1.jpg'', ''10.gif'']
       = Inr [''tmp/1.jpg'', ''tmp/3.png'', ''tmp/10.gif'']
   \<and> sorted_wrt (<) [1, 3, 10 :: int]"
proof -
  let ?ps = "[(3, ''.png''), (7, ''''), (1, ''.jpg''), (10, ''.gif'')] :: (int \<times> string) list"
  have v: "valid_store ?ps"
    by (simp add: valid_store_def)
  have names: "map page_file ?ps = [''3.png'', ''7'', ''1.jpg'', ''10.gif'']"
    by (simp add: page_file_def str_def str_nat.simps digit_char_def)
  have paths: "map (\<lambda>p. join ''tmp'' (page_file p)) [(1, ''.jpg''), (3, ''.png''), (10, ''.gif'')]
      = [''tmp/1.jpg'', ''tmp/3.png'', ''tmp/10.gif'']"
    by (simp add: page_file_def str_def str_nat.simps digit_char_def join_def)
  have sorted: "sort_key fst (filter (\<lambda>p. snd p \<noteq> []) ?ps)
      = [(1, ''.jpg''), (3, ''.png''), (10, ''.gif'')]"
    by simp
  from find_images_ordering [of ?ps "''tmp''"] v
  have found: "find_images ''tmp'' (map page_file ?ps)
          = Inr (map (\<lambda>p. join ''tmp'' (page_file p))
                   (sort_key fst (filter (\<lambda>p. snd p \<noteq> []) ?ps)))"
    and asc: "sorted_wrt (<) (map fst (sort_key fst (filter (\<lambda>p. snd p \<noteq> []) ?ps)))"
    by blast+
  have "find_images ''tmp'' [''3.png'', ''7'', ''1.jpg'', ''10.gif'']
       = Inr [''tmp/1.jpg'', ''tmp/3.png'', ''tmp/10.gif'']"
    using found unfolding names sorted paths .
  moreover have "sorted_wrt (<) [1, 3, 10 :: int]"
    using asc unfolding sorted by simp
  ultimately show ?thesis
    using v by blast
qed

subsection \<open>What the page store keeps and when it fails\<close>

lemma keyed_None_iff: "keyed xs = None \<longleftrightarrow> (\<exists>x \<in> set xs. sort_key_of x = None)"
  by (induction xs) (auto split: option.splits)

lemma keyed_Some_snd: "keyed xs = Some ks \<Longrightarrow> map snd ks = xs"
  by (induction xs arbitrary: ks) (auto split: option.splits)

lemma find_images_error_iff:
  "find_images directory listing = Inl ValueError
     \<longleftrightarrow> (\<exists>f \<in> set listing. is_image f \<and> int_of_str (hd (split_dot f)) = None)"
proof -
  have "find_images directory listing = Inl ValueError
      \<longleftrightarrow> keyed (filter is_image listing) = None"
    by (simp add: find_images_def split: option.splits)
  then show ?thesis
    by (auto simp: keyed_None_iff sort_key_of_def)
qed

lemma find_images_paths:
  assumes "find_images directory listing = Inr paths"
  shows "mset paths = image_mset (join directory) (mset (filter is_image listing))"
proof -
  from assms obtain ks where k: "keyed (filter is_image listing) = Some ks"
    and p: "paths = map (\<lambda>kx. join directory (snd kx)) (sort_key fst ks)"
    by (auto simp: find_images_def split: option.splits)
  have "mset paths = image_mset (\<lambda>kx. join directory (snd kx)) (mset ks)"
    by (simp add: p)
  also have "\<dots> = image_mset (join directory) (mset (map snd ks))"
    by (simp add: multiset.map_comp comp_def)
  finally show ?thesis
    by (simp only: keyed_Some_snd [OF k])
qed

text \<open>
  Claim C8, amended. \<open>find_images\<close> fails, with \<open>ValueError\<close>, exactly when the text
  before the first dot of some kept entry is not parseable as an integer; when it
  succeeds, the returned paths are those of the kept entries, each once. An entry is
  kept exactly when it is named \<open>jpg\<close>, \<open>png\<close> or \<open>gif\<close>, or ends in a dot followed by
  one of these; every other entry is left out without a message.
\<close>

theorem find_images_filter_and_failure:
  "(find_images directory listing = Inl ValueError
      \<longleftrightarrow> (\<exists>f \<in> set listing. is_image f \<and> int_of_str (hd (split_dot f)) = None))
   \<and> (\<forall>paths. find_images directory listing = Inr paths \<longrightarrow>
         mset paths = image_mset (join directory) (mset (filter is_image listing)))
   \<and> (is_image f \<longleftrightarrow>
         f \<in> set [''jpg'', ''png'', ''gif'']
         \<or> (\<exists>stem ext. f = stem @ ''.'' @ ext \<and> ext \<in> set [''jpg'', ''png'', ''gif'']))"
  using find_images_error_iff [of directory listing] find_images_paths [of directory listing]
    is_image_iff [of f]
  by blast

text \<open>The theorem at a listing with two page files and two other entries, and at a
  listing whose only image file has no number.\<close>

theorem find_images_filter_and_failure_witness:
  "find_images ''tmp'' [''notes.txt'', ''7'', ''2.png'', ''1.2.jpg'']
     = Inr [''tmp/1.2.jpg'', ''tmp/2.png'']
   \<and> mset [''tmp/1.2.jpg'', ''tmp/2.png'']
       = image_mset (join ''tmp'')
           (mset (filter is_image [''notes.txt'', ''7'', ''2.png'', ''1.2.jpg'']))
   \<and> is_image ''1.2.jpg''
   \<and> find_images ''tmp'' [''notes.txt'', ''x.png''] = Inl ValueError"
proof -
  note inst = find_images_filter_and_failure [of "''tmp''" _ "''1.2.jpg''"]
  have run: "find_images ''tmp'' [''notes.txt'', ''7'', ''2.png'', ''1.2.jpg'']
     = Inr [''tmp/1.2.jpg'', ''tmp/2.png'']"
    by (simp add: find_images_def is_image_def sort_key_of_def int_of_str_def strip_def
        is_space_def is_digit_def digit_val_def join_def upt_rec)
  with inst [of "[''notes.txt'', ''7'', ''2.png'', ''1.2.jpg'']"]
  have kept: "mset [''tmp/1.2.jpg'', ''tmp/2.png'']
       = image_mset (join ''tmp'')
           (mset (filter is_image [''notes.txt'', ''7'', ''2.png'', ''1.2.jpg'']))"
    by blast
  have "''1.2.jpg'' = ''1.2'' @ ''.'' @ ''jpg'' \<and> ''jpg'' \<in> set [''jpg'', ''png'', ''gif'']"
    by simp
  with inst [of "[]"] have img: "is_image ''1.2.jpg''"
    by blast
  have "is_image ''x.png'' \<and> int_of_str (hd (split_dot ''x.png'')) = None"
    by (simp add: is_image_def int_of_str_def strip_def is_space_def is_digit_def)
  then have "\<exists>f \<in> set [''notes.txt'', ''x.png'']. is_image f \<and> int_of_str (hd (split_dot f)) = None"
    by simp
  with inst [of "[''notes.txt'', ''x.png'']"]
  have err: "find_images ''tmp'' [''notes.txt'', ''x.png''] = Inl ValueError"
    by blast
  show ?thesis
    using run kept img err by (intro conjI)
qed

text \<open>
  Claim C8 as stated fails twice. The entry \<open>jpg\<close> has the empty extension, yet it is
  kept, and \<open>find_images\<close> fails on it. The kept entry \<open>1.2.jpg\<close> has \<open>1.2\<close> before its
  extension, which is not an integer, yet \<open>find_images\<close> succeeds, sorting it by 1.
\<close>

theorem find_images_filter_and_failure_counterexample:
  "name_extension ''jpg'' = [] \<and> is_image ''jpg''
   \<and> find_images ''tmp'' [''jpg''] = Inl ValueError
   \<and> is_image ''1.2.jpg'' \<and> name_before_extension ''1.2.jpg'' = ''1.2''
   \<and> int_of_str (name_before_extension ''1.2.jpg'') = None
   \<and> find_images ''tmp'' [''1.2.jpg''] = Inr [''tmp/1.2.jpg'']"
  by (simp add: find_images_def is_image_def sort_key_of_def int_of_str_def strip_def
      is_space_def is_digit_def digit_val_def join_def upt_rec name_extension_def
      name_before_extension_def)

end
